theory Spec2Isabelle
  imports Main "HOL-Library.AList" "HOL-Library.Char_ord" "HOL-Library.List_Lexorder"
    "HOL-Library.Product_Lexorder" "HOL-Library.Multiset" "HOL-Library.Sublist"
begin

section \<open>Python values\<close>

text \<open>
  The repository holds two variants of one pipeline, \<^verbatim>\<open>process_bib.py\<close> and \<^verbatim>\<open>main.py\<close>.
  Functions that are the same text in both files are modelled once; where the two files
  differ, the model of \<^verbatim>\<open>main.py\<close> carries the suffix \<open>_main\<close>.

  Strings are lists of characters. The string methods and the regular expression classes
  are modelled as Python defines them on ASCII text: \<open>A\<close>..\<open>Z\<close> and \<open>a\<close>..\<open>z\<close> are the cased
  characters, and whitespace is the set Python's \<^verbatim>\<open>str.isspace\<close> and the class \<^verbatim>\<open>\s\<close> accept
  below code 128 (codes 9 to 13 and 28 to 32). Python's case mappings and whitespace on
  characters from code 128 on (where \<^verbatim>\<open>upper\<close> may even change the length of a string) are
  not modelled: each main theorem below that depends on case or whitespace is stated for
  ASCII text, with the hypothesis \<open>isascii\<close> on the strings concerned, and the lemmas in
  between are properties of the functions as defined here.
\<close>

datatype py_error = KeyError | IndexError

definition isspace :: "char \<Rightarrow> bool" where
  \<comment> \<open>\<^verbatim>\<open>c.isspace()\<close> and the class \<^verbatim>\<open>\s\<close>, on ASCII characters\<close>
  "isspace c = (let n = (of_char c :: nat) in (9 \<le> n \<and> n \<le> 13) \<or> (28 \<le> n \<and> n \<le> 32))"

definition is_upper :: "char \<Rightarrow> bool" where
  "is_upper c = (let n = (of_char c :: nat) in 65 \<le> n \<and> n \<le> 90)"

definition is_lower :: "char \<Rightarrow> bool" where
  "is_lower c = (let n = (of_char c :: nat) in 97 \<le> n \<and> n \<le> 122)"

definition is_alpha :: "char \<Rightarrow> bool" where
  \<comment> \<open>the regular expression class \<^verbatim>\<open>[a-zA-Z]\<close>\<close>
  "is_alpha c = (is_upper c \<or> is_lower c)"

definition lower_char :: "char \<Rightarrow> char" where
  "lower_char c = (if is_upper c then char_of (of_char c + (32::nat)) else c)"

definition upper_char :: "char \<Rightarrow> char" where
  "upper_char c = (if is_lower c then char_of (of_char c - (32::nat)) else c)"

definition isascii :: "string \<Rightarrow> bool" where
  \<comment> \<open>\<^verbatim>\<open>s.isascii()\<close>: every character has a code below 128\<close>
  "isascii s = list_all (\<lambda>c. (of_char c :: nat) < 128) s"

definition py_lower :: "string \<Rightarrow> string" where
  \<comment> \<open>\<^verbatim>\<open>s.lower()\<close> on ASCII text\<close>
  "py_lower s = map lower_char s"

section \<open>Entries\<close>

text \<open>
  A bibliography entry is a Python \<^verbatim>\<open>dict\<close> from field names to strings, as
  \<^verbatim>\<open>bibtexparser\<close> produces it; the key is stored under \<^verbatim>\<open>'ID'\<close> and the type under
  \<^verbatim>\<open>'ENTRYTYPE'\<close>. A dict keeps insertion order, so an entry is an association list;
  \<open>map_of\<close> is the lookup. \<^verbatim>\<open>entry[k]\<close> raises \<^verbatim>\<open>KeyError\<close> on an absent key.
\<close>

type_synonym entry = "(string \<times> string) list"

definition getitem :: "entry \<Rightarrow> string \<Rightarrow> py_error + string" where
  "getitem e k = (case map_of e k of None \<Rightarrow> Inl KeyError | Some v \<Rightarrow> Inr v)"

definition has_field :: "entry \<Rightarrow> string \<Rightarrow> bool" where
  \<comment> \<open>\<^verbatim>\<open>k in entry\<close>\<close>
  "has_field e k = (map_of e k \<noteq> None)"

definition id_in :: "string set \<Rightarrow> entry \<Rightarrow> bool" where
  \<comment> \<open>the entry has a key and the key is a member of the set\<close>
  "id_in ks e = (case map_of e ''ID'' of None \<Rightarrow> False | Some i \<Rightarrow> i \<in> ks)"

section \<open>Partitioner\<close>

text \<open>
  \<^verbatim>\<open>separate_entries\<close> (the same text in both files): one pass over the entries, appending
  each to one of two lists.
\<close>

fun separate_loop ::
  "entry list \<Rightarrow> string set \<Rightarrow> entry list \<Rightarrow> entry list \<Rightarrow> py_error + (entry list \<times> entry list)"
where
  "separate_loop [] citation_keys used_entries unused_entries = Inr (used_entries, unused_entries)"
| "separate_loop (e # es) citation_keys used_entries unused_entries =
     (case getitem e ''ID'' of
        Inl err \<Rightarrow> Inl err
      | Inr i \<Rightarrow>
          if i \<in> citation_keys
          then separate_loop es citation_keys (used_entries @ [e]) unused_entries
          else separate_loop es citation_keys used_entries (unused_entries @ [e]))"

definition separate_entries ::
  "entry list \<Rightarrow> string set \<Rightarrow> py_error + (entry list \<times> entry list)"
where
  "separate_entries entries citation_keys = separate_loop entries citation_keys [] []"

section \<open>Regular expressions\<close>

text \<open>
  The patterns of the code use literals, character classes, sequence, alternation, an
  optional item, and greedy or lazy repetition of a character class. \<open>rmatch r s k\<close> is
  the backtracking matcher of Python's \<^verbatim>\<open>re\<close>: it matches \<open>r\<close> at the head of \<open>s\<close> and
  hands the remaining text to the continuation \<open>k\<close>; when \<open>k\<close> fails, the next
  possibility of \<open>r\<close> is tried, in the order Python tries them (the left alternative
  first, the longest repetition first when greedy, the shortest first when lazy).
\<close>

datatype regex =
    Lit char
  | Cls "char \<Rightarrow> bool"
  | Seq regex regex
  | Alt regex regex
  | Opt regex
  | Star "char \<Rightarrow> bool"
  | LazyStar "char \<Rightarrow> bool"

fun rmatch :: "regex \<Rightarrow> string \<Rightarrow> (string \<Rightarrow> 'a option) \<Rightarrow> 'a option" where
  "rmatch (Lit c) s k = (case s of [] \<Rightarrow> None | x # xs \<Rightarrow> if x = c then k xs else None)"
| "rmatch (Cls P) s k = (case s of [] \<Rightarrow> None | x # xs \<Rightarrow> if P x then k xs else None)"
| "rmatch (Seq a b) s k = rmatch a s (\<lambda>s'. rmatch b s' k)"
| "rmatch (Alt a b) s k = (case rmatch a s k of Some r \<Rightarrow> Some r | None \<Rightarrow> rmatch b s k)"
| "rmatch (Opt a) s k = (case rmatch a s k of Some r \<Rightarrow> Some r | None \<Rightarrow> k s)"
| "rmatch (Star P) s k =
     (case s of
        [] \<Rightarrow> k []
      | x # xs \<Rightarrow>
          if P x then (case rmatch (Star P) xs k of Some r \<Rightarrow> Some r | None \<Rightarrow> k s)
          else k s)"
| "rmatch (LazyStar P) s k =
     (case k s of
        Some r \<Rightarrow> Some r
      | None \<Rightarrow> (case s of [] \<Rightarrow> None | x # xs \<Rightarrow> if P x then rmatch (LazyStar P) xs k else None))"

declare rmatch.simps(6) [simp del] rmatch.simps(7) [simp del]

definition Plus :: "(char \<Rightarrow> bool) \<Rightarrow> regex" where
  \<comment> \<open>\<^verbatim>\<open>[...]+\<close>, greedy\<close>
  "Plus P = Seq (Cls P) (Star P)"

primrec Lits :: "string \<Rightarrow> regex \<Rightarrow> regex" where
  \<comment> \<open>a literal text in front of a pattern\<close>
  "Lits [] r = r"
| "Lits (c # cs) r = Seq (Lit c) (Lits cs r)"

text \<open>
  \<^verbatim>\<open>pattern.findall(s)\<close> for a pattern with one group: \<open>m\<close> matches at the head of a text
  and returns the group and the text behind the match. The scan tries each position from
  the left and continues behind a match. (After an empty match the scan moves on by one
  character; the patterns here have no empty match.)
\<close>

function findall :: "(string \<Rightarrow> (string \<times> string) option) \<Rightarrow> string \<Rightarrow> string list" where
  "findall m s =
     (case m s of
        Some (g, rest) \<Rightarrow>
          if length rest < length s then g # findall m rest
          else g # (case s of [] \<Rightarrow> [] | c # cs \<Rightarrow> findall m cs)
      | None \<Rightarrow> (case s of [] \<Rightarrow> [] | c # cs \<Rightarrow> findall m cs))"
  by pat_completeness auto
termination
  by (relation "measure (\<lambda>(m, s). length s)") auto

declare findall.simps [simp del]

section \<open>Schema validator\<close>

definition setitem :: "entry \<Rightarrow> string \<Rightarrow> string \<Rightarrow> entry" where
  \<comment> \<open>\<^verbatim>\<open>entry[k] = v\<close>: a new key goes to the end, an old key keeps its place\<close>
  "setitem e k v = AList.update k v e"

definition dict_get :: "(string \<times> 'v) list \<Rightarrow> string \<Rightarrow> 'v \<Rightarrow> 'v" where
  \<comment> \<open>\<^verbatim>\<open>d.get(k, default)\<close>\<close>
  "dict_get d k dflt = (case map_of d k of None \<Rightarrow> dflt | Some v \<Rightarrow> v)"

record report_item =
  item_ID :: string
  item_ENTRYTYPE :: string
  missing_fields :: "string list"

text \<open>
  The loop of \<^verbatim>\<open>check_required_fields\<close> over the required fields: the entry is updated
  in place, so a field added for an earlier occurrence is present at a later one.
\<close>

fun add_missing :: "string list \<Rightarrow> entry \<Rightarrow> string list \<Rightarrow> entry \<times> string list" where
  "add_missing [] entry missing = (entry, missing)"
| "add_missing (field # rest) entry missing =
     (if \<not> has_field entry field
      then add_missing rest (setitem entry field '''') (missing @ [field])
      else add_missing rest entry missing)"

definition append_report ::
  "entry \<Rightarrow> string list \<Rightarrow> report_item list \<Rightarrow> py_error + (entry \<times> report_item list)"
where
  "append_report entry missing report =
     (if missing \<noteq> [] then
        (case getitem entry ''ID'' of
           Inl err \<Rightarrow> Inl err
         | Inr i \<Rightarrow>
             (case getitem entry ''ENTRYTYPE'' of
                Inl err \<Rightarrow> Inl err
              | Inr t \<Rightarrow>
                  Inr (entry, report @
                    [\<lparr>item_ID = i, item_ENTRYTYPE = t, missing_fields = missing\<rparr>])))
      else Inr (entry, report))"

text \<open>\<^verbatim>\<open>check_required_fields\<close> of \<^verbatim>\<open>process_bib.py\<close>: extra fields stay.\<close>

definition check_required_fields ::
  "entry \<Rightarrow> string list \<Rightarrow> report_item list \<Rightarrow> py_error + (entry \<times> report_item list)"
where
  "check_required_fields entry required_fields missing_fields_report =
     (case add_missing required_fields entry [] of
        (entry', missing) \<Rightarrow> append_report entry' missing missing_fields_report)"

text \<open>
  \<^verbatim>\<open>check_required_fields\<close> of \<^verbatim>\<open>main.py\<close>: every field that is neither required nor
  \<^verbatim>\<open>'ID'\<close> nor \<^verbatim>\<open>'ENTRYTYPE'\<close> is deleted first.
\<close>

definition fields_to_remove :: "entry \<Rightarrow> string list \<Rightarrow> string list" where
  "fields_to_remove entry required_fields =
     filter (\<lambda>field. field \<notin> set required_fields \<and> field \<notin> {''ID'', ''ENTRYTYPE''})
       (map fst entry)"

definition check_required_fields_main ::
  "entry \<Rightarrow> string list \<Rightarrow> report_item list \<Rightarrow> py_error + (entry \<times> report_item list)"
where
  "check_required_fields_main entry required_fields missing_fields_report =
     (let entry1 = fold AList.delete (fields_to_remove entry required_fields) entry in
      case add_missing required_fields entry1 [] of
        (entry', missing) \<Rightarrow> append_report entry' missing missing_fields_report)"

text \<open>
  The elements of a list in the order of their first occurrence; the loops above and the
  record loader visit lists that may repeat an element and act on the first occurrence only.
\<close>

primrec first_occurrences :: "'a list \<Rightarrow> 'a list" where
  "first_occurrences [] = []"
| "first_occurrences (x # xs) = x # removeAll x (first_occurrences xs)"

subsection \<open>arXiv reclassification (\<^verbatim>\<open>main.py\<close>)\<close>







section \<open>Record loader\<close>

text \<open>
  \<^verbatim>\<open>read_bib_files\<close> walks the directory listing; a file whose name ends with the suffix
  is parsed by \<^verbatim>\<open>bibtexparser\<close>. The listing is the input here: each file name in the order
  \<^verbatim>\<open>os.listdir\<close> yields it, with the entries the parser returns for that file. The state
  threaded through the loops is the dict \<^verbatim>\<open>all_entries\<close> (key to entry, in insertion order)
  and the lines printed so far.
\<close>

type_synonym bib_file = "string \<times> entry list"

definition endswith :: "string \<Rightarrow> string \<Rightarrow> bool" where
  \<comment> \<open>\<^verbatim>\<open>s.endswith(suf)\<close>\<close>
  "endswith s suf = suffix suf s"

definition duplicate_message :: "string \<Rightarrow> string \<Rightarrow> string" where
  "duplicate_message entry_id filename =
     ''Duplicate entry ID '' @ [CHR 0x27] @ entry_id @ [CHR 0x27] @ '' found in '' @ filename @
     '', ignoring duplicate.''"

fun read_entries ::
  "string \<Rightarrow> entry list \<Rightarrow> (string \<times> entry) list \<Rightarrow> string list \<Rightarrow>
   py_error + ((string \<times> entry) list \<times> string list)"
where
  "read_entries filename [] all_entries printed = Inr (all_entries, printed)"
| "read_entries filename (entry # rest) all_entries printed =
     (case getitem entry ''ID'' of
        Inl err \<Rightarrow> Inl err
      | Inr entry_id \<Rightarrow>
          if map_of all_entries entry_id = None
          then read_entries filename rest (AList.update entry_id entry all_entries) printed
          else read_entries filename rest all_entries
                 (printed @ [duplicate_message entry_id filename]))"

fun read_files ::
  "string \<Rightarrow> bib_file list \<Rightarrow> (string \<times> entry) list \<Rightarrow> string list \<Rightarrow>
   py_error + ((string \<times> entry) list \<times> string list)"
where
  "read_files suf [] all_entries printed = Inr (all_entries, printed)"
| "read_files suf ((filename, entries) # rest) all_entries printed =
     (if endswith filename suf
      then (case read_entries filename entries all_entries printed of
              Inl err \<Rightarrow> Inl err
            | Inr (all_entries', printed') \<Rightarrow> read_files suf rest all_entries' printed')
      else read_files suf rest all_entries printed)"

text \<open>
  \<^verbatim>\<open>read_bib_files(bib_directory, bib_filename)\<close> of \<^verbatim>\<open>main.py\<close> returns
  \<^verbatim>\<open>list(all_entries.values())\<close>; the printed lines are returned beside it.
  \<^verbatim>\<open>read_bib_files(bib_directory)\<close> of \<^verbatim>\<open>process_bib.py\<close> is the same with the
  suffix \<^verbatim>\<open>.bib\<close>.
\<close>

definition read_bib_files_main ::
  "bib_file list \<Rightarrow> string \<Rightarrow> py_error + (entry list \<times> string list)"
where
  "read_bib_files_main listing bib_filename =
     (case read_files bib_filename listing [] [] of
        Inl err \<Rightarrow> Inl err
      | Inr (all_entries, printed) \<Rightarrow> Inr (map snd all_entries, printed))"

definition read_bib_files :: "bib_file list \<Rightarrow> py_error + (entry list \<times> string list)" where
  "read_bib_files listing = read_bib_files_main listing ''.bib''"

text \<open>
  For the statement of the loader's result: the entries of the qualifying files in
  traversal order, each with the name of its file, and the positions of a list of keys
  that hold a key for the first time, or again.
\<close>

definition traversal :: "bib_file list \<Rightarrow> string \<Rightarrow> (string \<times> entry) list" where
  "traversal listing suf =
     concat (map (\<lambda>(filename, entries). map (Pair filename) entries)
       (filter (\<lambda>(filename, entries). endswith filename suf) listing))"

definition first_seen_positions :: "'k list \<Rightarrow> nat list" where
  "first_seen_positions ks = filter (\<lambda>i. \<forall>j<i. ks ! j \<noteq> ks ! i) [0..<length ks]"

definition seen_again_positions :: "'k list \<Rightarrow> nat list" where
  "seen_again_positions ks = filter (\<lambda>i. \<exists>j<i. ks ! j = ks ! i) [0..<length ks]"

definition entry_key :: "entry \<Rightarrow> string" where
  \<comment> \<open>the key of an entry that has one\<close>
  "entry_key e = dict_get e ''ID'' ''''"

definition kept_entries :: "(string \<times> entry) list \<Rightarrow> entry list" where
  \<comment> \<open>the entries at the positions where a key is seen for the first time\<close>
  "kept_entries tagged =
     map (\<lambda>i. snd (tagged ! i)) (first_seen_positions (map (entry_key \<circ> snd) tagged))"

definition duplicate_reports :: "(string \<times> entry) list \<Rightarrow> string list" where
  \<comment> \<open>one line for each position where a key is seen again, naming the key and the file\<close>
  "duplicate_reports tagged =
     map (\<lambda>i. duplicate_message (entry_key (snd (tagged ! i))) (fst (tagged ! i)))
       (seen_again_positions (map (entry_key \<circ> snd) tagged))"

section \<open>Consistency detector\<close>

definition py_strip :: "string \<Rightarrow> string" where
  \<comment> \<open>\<^verbatim>\<open>s.strip()\<close> on ASCII text: whitespace removed at both ends\<close>
  "py_strip s = rev (dropWhile isspace (rev (dropWhile isspace s)))"








section \<open>Sorter\<close>













section \<open>Author normalization\<close>

subsection \<open>String methods\<close>

fun split_ws :: "string \<Rightarrow> string \<Rightarrow> string list" where
  \<comment> \<open>the scan of \<^verbatim>\<open>s.split()\<close>; \<open>cur\<close> is the current word, reversed\<close>
  "split_ws cur [] = (if cur = [] then [] else [rev cur])"
| "split_ws cur (c # cs) =
     (if isspace c
      then (if cur = [] then split_ws [] cs else rev cur # split_ws [] cs)
      else split_ws (c # cur) cs)"

definition py_split :: "string \<Rightarrow> string list" where
  \<comment> \<open>\<^verbatim>\<open>s.split()\<close> on ASCII text: the maximal runs of characters that are not whitespace\<close>
  "py_split s = split_ws [] s"

definition py_split_once :: "char \<Rightarrow> string \<Rightarrow> string list" where
  \<comment> \<open>\<^verbatim>\<open>s.split(c, 1)\<close>: cut at the first \<open>c\<close>, if there is one\<close>
  "py_split_once c s =
     (if c \<in> set s then [takeWhile (\<lambda>x. x \<noteq> c) s, tl (dropWhile (\<lambda>x. x \<noteq> c) s)] else [s])"

fun py_join :: "string \<Rightarrow> string list \<Rightarrow> string" where
  \<comment> \<open>\<^verbatim>\<open>sep.join(xs)\<close>\<close>
  "py_join sep [] = []"
| "py_join sep [x] = x"
| "py_join sep (x # y # ys) = x @ sep @ py_join sep (y # ys)"

definition py_capitalize :: "string \<Rightarrow> string" where
  \<comment> \<open>\<^verbatim>\<open>s.capitalize()\<close> on ASCII text: first character uppercased, the others lowercased\<close>
  "py_capitalize s = (case s of [] \<Rightarrow> [] | c # cs \<Rightarrow> upper_char c # map lower_char cs)"

subsection \<open>Splitting at the separator\<close>

text \<open>
  \<^verbatim>\<open>re.split(r'\s+and\s+', author_field)\<close>. A match of \<^verbatim>\<open>\s+and\s+\<close> at a position is a
  whole run of whitespace, the letters \<^verbatim>\<open>and\<close>, and a whole run of whitespace: both
  \<^verbatim>\<open>\s+\<close> are greedy, and giving back a whitespace character never helps, since the next
  pattern character then meets whitespace. \<open>match_sep\<close> returns the text behind the match.
  The scan tries each position from the left and continues behind a match.
\<close>

definition match_sep :: "string \<Rightarrow> string option" where
  "match_sep s =
     (if takeWhile isspace s = [] then None
      else (case dropWhile isspace s of
              a # n # d # r \<Rightarrow>
                if a = CHR ''a'' \<and> n = CHR ''n'' \<and> d = CHR ''d'' \<and> takeWhile isspace r \<noteq> []
                then Some (dropWhile isspace r) else None
            | _ \<Rightarrow> None))"

lemma match_sep_shorter: "match_sep s = Some r \<Longrightarrow> length r < length s"
proof -
  assume m: "match_sep s = Some r"
  then obtain a n d r' where d: "dropWhile isspace s = a # n # d # r'" and r: "r = dropWhile isspace r'"
    by (auto simp: match_sep_def split: if_splits list.splits)
  have "length r \<le> length r'"
    unfolding r by (rule length_dropWhile_le)
  moreover have "length (dropWhile isspace s) \<le> length s"
    by (rule length_dropWhile_le)
  ultimately show ?thesis
    unfolding d by simp
qed

function split_and :: "string \<Rightarrow> string \<Rightarrow> string list" where
  \<comment> \<open>\<open>cur\<close> is the current piece, reversed\<close>
  "split_and cur [] = [rev cur]"
| "split_and cur (c # cs) =
     (case match_sep (c # cs) of
        Some rest \<Rightarrow> rev cur # split_and [] rest
      | None \<Rightarrow> split_and (c # cur) cs)"
  by pat_completeness auto
termination
  by (relation "measure (\<lambda>(cur, s). length s)") (auto dest: match_sep_shorter)

definition re_split_and :: "string \<Rightarrow> string list" where
  "re_split_and s = split_and [] s"

subsection \<open>\<^verbatim>\<open>standardize_authors\<close> (the same text in both files)\<close>

definition standardize_author :: "string \<Rightarrow> py_error + string" where
  \<comment> \<open>the body of the loop over the authors\<close>
  "standardize_author author0 =
     (let author = py_strip author0 in
      case
        (if CHR '','' \<in> set author then
           (case map py_strip (py_split_once CHR '','' author) of
              [] \<Rightarrow> Inl IndexError
            | p0 # ps \<Rightarrow> Inr (p0, case ps of [] \<Rightarrow> [] | p1 # _ \<Rightarrow> p1))
         else
           (let names = py_split author in
            if length names > 1 then Inr (last names, py_join '' '' (butlast names))
            else (case names of [] \<Rightarrow> Inl IndexError | n0 # _ \<Rightarrow> Inr (n0, []))))
      of
        Inl err \<Rightarrow> Inl err
      | Inr (last_name0, first_names0) \<Rightarrow>
          (let last_name = py_capitalize last_name0;
               first_names = py_join '' '' (map py_capitalize (py_split first_names0))
           in Inr (if first_names \<noteq> [] then last_name @ '', '' @ first_names else last_name)))"

fun standardize_loop :: "string list \<Rightarrow> string list \<Rightarrow> py_error + string list" where
  "standardize_loop [] standardized_authors = Inr standardized_authors"
| "standardize_loop (author # rest) standardized_authors =
     (case standardize_author author of
        Inl err \<Rightarrow> Inl err
      | Inr standardized_author \<Rightarrow>
          standardize_loop rest (standardized_authors @ [standardized_author]))"

definition standardize_authors :: "string \<Rightarrow> py_error + string" where
  "standardize_authors author_field =
     (case standardize_loop (re_split_and author_field) [] of
        Inl err \<Rightarrow> Inl err
      | Inr standardized_authors \<Rightarrow> Inr (py_join '' and '' standardized_authors))"

subsection \<open>Segments at the literal separator\<close>

text \<open>
  The specification speaks of the segments separated by the literal text \<^verbatim>\<open> and \<close>, a
  single space on either side. \<open>literal_segments\<close> is that reading, the result of
  \<^verbatim>\<open>author_field.split(' and ')\<close>: the scan cuts at the leftmost occurrence of the separator
  and continues behind it.
\<close>

fun split_literal :: "string \<Rightarrow> string \<Rightarrow> string list" where
  \<comment> \<open>\<open>cur\<close> is the current piece, reversed\<close>
  "split_literal cur [] = [rev cur]"
| "split_literal cur (c # cs) =
     (if prefix '' and '' (c # cs) then rev cur # split_literal [] (drop 4 cs)
      else split_literal (c # cur) cs)"

definition literal_segments :: "string \<Rightarrow> string list" where
  "literal_segments s = split_literal [] s"

section \<open>Key extractor\<close>














section \<open>Title casing\<close>

subsection \<open>\<^verbatim>\<open>title_case\<close> of \<^verbatim>\<open>process_bib.py\<close>\<close>

definition small_words :: "string set" where
  "small_words = {''a'', ''an'', ''the'', ''and'', ''but'', ''or'', ''for'', ''nor'',
     ''on'', ''at'', ''to'', ''from'', ''by'', ''of'', ''in'', ''out'', ''over'',
     ''with'', ''is'', ''ok'', ''as'', ''if'', ''be'', ''into'', ''than'', ''that''}"

text \<open>
  The pattern \<^verbatim>\<open>(\\[a-zA-Z]+\{.*?\}|{.*?}|[^\s]+)\<close>. The dot matches every character but the
  line feed. The group is the whole match.
\<close>

definition not_newline :: "char \<Rightarrow> bool" where
  "not_newline c = (c \<noteq> CHR 0x0A)"

definition token_re :: regex where
  "token_re =
     Alt (Seq (Lit CHR 0x5C) (Seq (Plus is_alpha)
            (Seq (Lit CHR ''{'') (Seq (LazyStar not_newline) (Lit CHR ''}'')))))
      (Alt (Seq (Lit CHR ''{'') (Seq (LazyStar not_newline) (Lit CHR ''}'')))
           (Plus (\<lambda>c. \<not> isspace c)))"

definition token_match :: "string \<Rightarrow> (string \<times> string) option" where
  "token_match s = rmatch token_re s (\<lambda>rest. Some (take (length s - length rest) s, rest))"

definition py_isupper :: "string \<Rightarrow> bool" where
  \<comment> \<open>\<^verbatim>\<open>s.isupper()\<close> on ASCII text: some cased character, and no lowercase one\<close>
  "py_isupper s = (list_ex is_upper s \<and> \<not> list_ex is_lower s)"

definition startswith :: "string \<Rightarrow> string \<Rightarrow> bool" where
  \<comment> \<open>\<^verbatim>\<open>s.startswith(p)\<close>\<close>
  "startswith s p = prefix p s"

definition is_opaque :: "string \<Rightarrow> bool" where
  \<comment> \<open>the test for a LaTeX command or group in the loop of \<^verbatim>\<open>title_case\<close>\<close>
  "is_opaque token =
     (startswith token [CHR 0x5C] \<or> (startswith token ''{'' \<and> endswith token ''}''))"

fun title_loop :: "nat \<Rightarrow> nat \<Rightarrow> string list \<Rightarrow> string list \<Rightarrow> string list" where
  \<comment> \<open>\<^verbatim>\<open>for i, token in enumerate(tokens)\<close>, from index \<open>i\<close> on\<close>
  "title_loop num_tokens i [] new_title_parts = new_title_parts"
| "title_loop num_tokens i (token # rest) new_title_parts =
     (if is_opaque token then title_loop num_tokens (i + 1) rest (new_title_parts @ [token])
      else
        (let word = token;
             new_word =
               (if py_isupper word then word
                else if i = 0 \<or> int i = int num_tokens - 1 then py_capitalize word
                else if py_lower word \<in> small_words then py_lower word
                else py_capitalize word)
         in title_loop num_tokens (i + 1) rest (new_title_parts @ [new_word])))"

definition title_case :: "string \<Rightarrow> string" where
  "title_case title =
     (let tokens = findall token_match title
      in py_join '' '' (title_loop (length tokens) 0 tokens []))"

subsection \<open>\<^verbatim>\<open>title_case\<close> of \<^verbatim>\<open>main.py\<close>\<close>

definition lowercase_words :: "string set" where
  "lowercase_words = {''with'', ''a'', ''an'', ''and'', ''as'', ''at'', ''but'', ''by'',
     ''for'', ''in'', ''nor'', ''of'', ''on'', ''or'', ''so'', ''the'', ''to'', ''up'',
     ''yet''}"

definition upper_first :: "string \<Rightarrow> py_error + string" where
  \<comment> \<open>\<^verbatim>\<open>word[0].upper() + word[1:]\<close> on ASCII text; \<^verbatim>\<open>word[0]\<close> raises on the empty string\<close>
  "upper_first word = (case word of [] \<Rightarrow> Inl IndexError | c # cs \<Rightarrow> Inr (upper_char c # cs))"

fun title_words_main :: "nat \<Rightarrow> nat \<Rightarrow> string list \<Rightarrow> py_error + string list" where
  \<comment> \<open>the list comprehension over \<^verbatim>\<open>enumerate(words)\<close>, from index \<open>i\<close> on\<close>
  "title_words_main n i [] = Inr []"
| "title_words_main n i (word # rest) =
     (case (if i \<noteq> 0 \<and> int i \<noteq> int n - 1 \<and> py_lower word \<in> lowercase_words
            then Inr word else upper_first word) of
        Inl err \<Rightarrow> Inl err
      | Inr w \<Rightarrow>
          (case title_words_main n (i + 1) rest of
             Inl err \<Rightarrow> Inl err
           | Inr ws \<Rightarrow> Inr (w # ws)))"

definition title_case_main :: "string \<Rightarrow> py_error + string" where
  "title_case_main title =
     (let words = py_split title
      in case title_words_main (length words) 0 words of
           Inl err \<Rightarrow> Inl err
         | Inr title_cased_words \<Rightarrow> Inr (py_join '' '' title_cased_words))"

subsection \<open>The loops, item by item\<close>



text \<open>The rule of \<^verbatim>\<open>main.py\<close> for one word.\<close>

definition main_rule :: "nat \<Rightarrow> nat \<Rightarrow> string \<Rightarrow> string" where
  "main_rule n i word =
     (if i \<noteq> 0 \<and> Suc i \<noteq> n \<and> py_lower word \<in> lowercase_words then word
      else (case word of [] \<Rightarrow> [] | c # cs \<Rightarrow> upper_char c # cs))"

subsection \<open>The token pattern, written out\<close>

text \<open>
  The three alternatives of the token pattern at the head of a text, each returning the
  text behind its match. The lazy \<^verbatim>\<open>.*?\<close> in front of the closing brace stops at the first
  closing brace, and fails when a line feed comes first.
\<close>

definition brace_tail :: "string \<Rightarrow> string option" where
  "brace_tail s =
     (case dropWhile (\<lambda>c. c \<noteq> CHR ''}'' \<and> c \<noteq> CHR 0x0A) s of
        [] \<Rightarrow> None
      | x # rest \<Rightarrow> if x = CHR ''}'' then Some rest else None)"

definition cmd_rest :: "string \<Rightarrow> string option" where
  "cmd_rest s =
     (case s of
        [] \<Rightarrow> None
      | c # cs \<Rightarrow>
          if c = CHR 0x5C \<and> takeWhile is_alpha cs \<noteq> [] then
            (case dropWhile is_alpha cs of
               [] \<Rightarrow> None
             | x # t \<Rightarrow> if x = CHR ''{'' then brace_tail t else None)
          else None)"

definition grp_rest :: "string \<Rightarrow> string option" where
  "grp_rest s =
     (case s of [] \<Rightarrow> None | c # cs \<Rightarrow> if c = CHR ''{'' then brace_tail cs else None)"

definition run_rest :: "string \<Rightarrow> string option" where
  "run_rest s =
     (case s of
        [] \<Rightarrow> None
      | c # cs \<Rightarrow> if isspace c then None else Some (dropWhile (\<lambda>c. \<not> isspace c) cs))"



subsection \<open>The rule of the specification\<close>

text \<open>
  The specification reads a title as a sequence of tokens of two kinds: opaque tokens,
  which are the brace groups \<^verbatim>\<open>{...}\<close> and the command groups \<^verbatim>\<open>\cmd{...}\<close>, and plain words.
  \<open>spec_token\<close> reads one token at the head of a text: a command group (a backslash,
  letters, and a brace group), else a brace group (from an opening brace to the next
  closing brace on the line), else a word (the characters up to the next whitespace).
  \<open>spec_tokens\<close> reads the tokens of a text from left to right, passing over the
  whitespace between them.
\<close>

datatype token = Opaque string | Word string


definition spec_token :: "string \<Rightarrow> (token \<times> string) option" where
  "spec_token s =
     (case cmd_rest s of
        Some r \<Rightarrow> Some (Opaque (take (length s - length r) s), r)
      | None \<Rightarrow>
          (case grp_rest s of
             Some r \<Rightarrow> Some (Opaque (take (length s - length r) s), r)
           | None \<Rightarrow>
               (case run_rest s of
                  Some r \<Rightarrow> Some (Word (take (length s - length r) s), r)
                | None \<Rightarrow> None)))"

lemma brace_tail_shorter: "brace_tail s = Some r \<Longrightarrow> length r < length s"
proof -
  assume "brace_tail s = Some r"
  then have "dropWhile (\<lambda>c. c \<noteq> CHR ''}'' \<and> c \<noteq> CHR 0x0A) s = CHR ''}'' # r"
    by (auto simp: brace_tail_def split: list.splits if_splits)
  moreover have "length (dropWhile (\<lambda>c. c \<noteq> CHR ''}'' \<and> c \<noteq> CHR 0x0A) s) \<le> length s"
    by (rule length_dropWhile_le)
  ultimately show ?thesis by simp
qed

lemma spec_token_shorter: "spec_token s = Some (tok, r) \<Longrightarrow> length r < length s"
proof -
  assume t: "spec_token s = Some (tok, r)"
  then consider "cmd_rest s = Some r" | "grp_rest s = Some r" | "run_rest s = Some r"
    by (auto simp: spec_token_def split: option.splits)
  then show ?thesis
  proof cases
    case 1
    then obtain c cs x w where s: "s = c # cs" and d: "dropWhile is_alpha cs = x # w"
      and b: "brace_tail w = Some r"
      by (cases s) (auto simp: cmd_rest_def split: if_splits list.splits)
    have "length (dropWhile is_alpha cs) \<le> length cs"
      by (rule length_dropWhile_le)
    with brace_tail_shorter [OF b] show ?thesis
      unfolding s d by simp
  next
    case 2
    then obtain c cs where s: "s = c # cs" and b: "brace_tail cs = Some r"
      by (cases s) (auto simp: grp_rest_def split: if_splits)
    from brace_tail_shorter [OF b] show ?thesis
      unfolding s by simp
  next
    case 3
    then obtain c cs where s: "s = c # cs" and r: "r = dropWhile (\<lambda>c. \<not> isspace c) cs"
      by (cases s) (auto simp: run_rest_def split: if_splits)
    have "length (dropWhile (\<lambda>c. \<not> isspace c) cs) \<le> length cs"
      by (rule length_dropWhile_le)
    then show ?thesis
      unfolding s r by simp
  qed
qed

function spec_tokens :: "string \<Rightarrow> token list" where
  "spec_tokens [] = []"
| "spec_tokens (c # cs) =
     (case spec_token (c # cs) of
        Some (tok, rest) \<Rightarrow> tok # spec_tokens rest
      | None \<Rightarrow> spec_tokens cs)"
  by pat_completeness auto
termination
  by (relation "measure length") (auto dest: spec_token_shorter)


definition title_rule :: "string set \<Rightarrow> nat \<Rightarrow> nat \<Rightarrow> token \<Rightarrow> string" where
  "title_rule small n i tok =
     (case tok of
        Opaque g \<Rightarrow> g
      | Word w \<Rightarrow>
          if py_isupper w then w
          else if i = 0 \<or> Suc i = n then py_capitalize w
          else if py_lower w \<in> small then py_lower w
          else py_capitalize w)"

definition title_case_spec :: "string set \<Rightarrow> (token \<Rightarrow> token) \<Rightarrow> string \<Rightarrow> string" where
  \<comment> \<open>\<open>kind\<close> settles the kind of each token before the rule is applied\<close>
  "title_case_spec small kind title =
     (let tokens = map kind (spec_tokens title)
      in py_join '' '' (map (\<lambda>i. title_rule small (length tokens) i (tokens ! i))
           [0..<length tokens]))"

definition as_read :: "token \<Rightarrow> token" where
  \<comment> \<open>the kinds as the specification has them\<close>
  "as_read tok = tok"


section \<open>Normalizer entry point\<close>

text \<open>
  \<^verbatim>\<open>correct_capitalization\<close> rewrites the title and, in \<^verbatim>\<open>process_bib.py\<close> only, the author
  field of an entry; in \<^verbatim>\<open>main.py\<close> the author part is commented out. An exception of
  \<^verbatim>\<open>standardize_authors\<close> leaves through it.
\<close>

definition correct_capitalization :: "entry \<Rightarrow> py_error + entry" where
  "correct_capitalization entry =
     (let entry1 =
        (case map_of entry ''title'' of
           Some title \<Rightarrow> setitem entry ''title'' (title_case title)
         | None \<Rightarrow> entry)
      in case map_of entry1 ''author'' of
           Some author \<Rightarrow>
             (case standardize_authors author of
                Inl err \<Rightarrow> Inl err
              | Inr standardized \<Rightarrow> Inr (setitem entry1 ''author'' standardized))
         | None \<Rightarrow> Inr entry1)"

definition correct_capitalization_main :: "entry \<Rightarrow> py_error + entry" where
  "correct_capitalization_main entry =
     (case map_of entry ''title'' of
        Some title \<Rightarrow>
          (case title_case_main title of
             Inl err \<Rightarrow> Inl err
           | Inr title' \<Rightarrow> Inr (setitem entry ''title'' title'))
      | None \<Rightarrow> Inr entry)"

text \<open>The separator of the author list as a pattern, \<^verbatim>\<open>\s+and\s+\<close>.\<close>

definition sep_re :: regex where
  "sep_re = Seq (Plus isspace) (Lits ''and'' (Plus isspace))"

section \<open>Properties of the partitioner\<close>

lemma separate_loop_filter:
  assumes "\<forall>e \<in> set es. has_field e ''ID''"
  shows "separate_loop es ks us ns =
    Inr (us @ filter (id_in ks) es, ns @ filter (\<lambda>e. \<not> id_in ks e) es)"
  using assms
proof (induction es arbitrary: us ns)
  case Nil
  then show ?case by simp
next
  case (Cons e es)
  from Cons.prems obtain i where i: "map_of e ''ID'' = Some i"
    by (auto simp: has_field_def)
  from Cons.prems have rest: "\<forall>e \<in> set es. has_field e ''ID''"
    by simp
  show ?case
    using i Cons.IH [OF rest] by (simp add: getitem_def id_in_def)
qed

text \<open>
  C1. On entries that all carry a key, \<^verbatim>\<open>separate_entries\<close> returns two lists: the used
  list is the input filtered by "the key is in the citation-key set", the unused list is
  the input filtered by the negation, both in input order. Hence the two lists together
  hold exactly the input entries (as a multiset), no entry is in both, and an input entry
  is in the used list iff its key is in the set.
\<close>

theorem separate_entries_partition:
  assumes "\<forall>e \<in> set entries. has_field e ''ID''"
  shows "\<exists>used unused.
    separate_entries entries citation_keys = Inr (used, unused) \<and>
    used = filter (id_in citation_keys) entries \<and>
    unused = filter (\<lambda>e. \<not> id_in citation_keys e) entries \<and>
    mset (used @ unused) = mset entries \<and>
    set used \<inter> set unused = {} \<and>
    set used \<union> set unused = set entries \<and>
    (\<forall>e \<in> set entries. (e \<in> set used) = id_in citation_keys e) \<and>
    (\<forall>e \<in> set entries. (e \<in> set unused) = (\<not> id_in citation_keys e))"
proof -
  have "separate_entries entries citation_keys =
      Inr (filter (id_in citation_keys) entries, filter (\<lambda>e. \<not> id_in citation_keys e) entries)"
    using separate_loop_filter [OF assms, of citation_keys "[]" "[]"]
    by (simp add: separate_entries_def)
  then show ?thesis by auto
qed

theorem separate_entries_partition_witness:
  "separate_entries
     [[(''ID'', ''smith2020''), (''ENTRYTYPE'', ''article'')],
      [(''ID'', ''lee2019''), (''ENTRYTYPE'', ''book'')],
      [(''ID'', ''kim2021''), (''ENTRYTYPE'', ''misc'')]]
     {''smith2020'', ''kim2021''} =
   Inr ([[(''ID'', ''smith2020''), (''ENTRYTYPE'', ''article'')],
         [(''ID'', ''kim2021''), (''ENTRYTYPE'', ''misc'')]],
        [[(''ID'', ''lee2019''), (''ENTRYTYPE'', ''book'')]])"
  using separate_entries_partition
    [of "[[(''ID'', ''smith2020''), (''ENTRYTYPE'', ''article'')],
          [(''ID'', ''lee2019''), (''ENTRYTYPE'', ''book'')],
          [(''ID'', ''kim2021''), (''ENTRYTYPE'', ''misc'')]]"
        "{''smith2020'', ''kim2021''}"]
  by (simp add: has_field_def id_in_def)

section \<open>Properties of the schema validator\<close>

lemma char_of_eq_iff_of_char: "(char_of (n::nat) = c) = (n mod 256 = of_char c)"
  by (metis of_char_of char_of_char)

lemma set_first_occurrences: "set (first_occurrences xs) = set xs"
  by (induction xs) auto

lemma distinct_first_occurrences: "distinct (first_occurrences xs)"
  by (induction xs) (auto simp: distinct_removeAll)

lemma first_occurrences_distinct: "distinct xs \<Longrightarrow> first_occurrences xs = xs"
  by (induction xs) (auto simp: set_first_occurrences)

lemma subseq_removeAll: "subseq (removeAll x xs) xs"
  by (induction xs) auto

lemma subseq_first_occurrences: "subseq (first_occurrences xs) xs"
proof (induction xs)
  case Nil
  then show ?case by simp
next
  case (Cons x xs)
  have "subseq (removeAll x (first_occurrences xs)) (first_occurrences xs)"
    by (rule subseq_removeAll)
  with Cons.IH have "subseq (removeAll x (first_occurrences xs)) xs"
    using subseq_order.trans by blast
  then show ?case by simp
qed

lemma has_field_setitem: "has_field (setitem e f v) k = (k = f \<or> has_field e k)"
  by (simp add: has_field_def setitem_def update_conv')

lemma map_of_setitem: "map_of (setitem e f v) = (map_of e)(f \<mapsto> v)"
  by (simp add: setitem_def update_conv')

lemma add_missing_entry:
  "map_of (fst (add_missing rs e ms)) =
     (\<lambda>k. if k \<in> set rs \<and> \<not> has_field e k then Some '''' else map_of e k)"
proof (induction rs arbitrary: e ms)
  case Nil
  then show ?case by simp
next
  case (Cons f fs)
  show ?case
    by (auto simp: Cons.IH fun_eq_iff has_field_setitem map_of_setitem has_field_def)
qed

lemma filter_absent_setitem:
  "filter (\<lambda>g. \<not> has_field (setitem e f v) g) xs =
   filter (\<lambda>g. \<not> has_field e g) (removeAll f xs)"
  by (induction xs) (auto simp: has_field_setitem)

lemma filter_absent_removeAll:
  "has_field e f \<Longrightarrow>
   filter (\<lambda>g. \<not> has_field e g) (removeAll f xs) = filter (\<lambda>g. \<not> has_field e g) xs"
  by (induction xs) auto

lemma add_missing_list:
  "snd (add_missing rs e ms) = ms @ filter (\<lambda>f. \<not> has_field e f) (first_occurrences rs)"
proof (induction rs arbitrary: e ms)
  case Nil
  then show ?case by simp
next
  case (Cons f fs)
  show ?case
  proof (cases "has_field e f")
    case True
    then show ?thesis by (simp add: Cons.IH filter_absent_removeAll)
  next
    case False
    then show ?thesis
      by (simp add: Cons.IH filter_absent_setitem)
  qed
qed

lemma map_of_delete_fields:
  "map_of (fold AList.delete ks e) = (\<lambda>k. if k \<in> set ks then None else map_of e k)"
proof (induction ks arbitrary: e)
  case Nil
  then show ?case by simp
next
  case (Cons k ks)
  show ?case by (auto simp: Cons.IH fun_eq_iff delete_conv')
qed

lemma map_of_removed:
  "map_of (fold AList.delete (fields_to_remove e rs) e) =
     (\<lambda>k. if k \<in> set rs \<or> k = ''ID'' \<or> k = ''ENTRYTYPE'' then map_of e k else None)"
  by (auto simp: map_of_delete_fields fields_to_remove_def fun_eq_iff map_of_eq_None_iff)


lemma add_missing_restricted:
  assumes "\<And>f. f \<in> set rs \<Longrightarrow> has_field e1 f = has_field e f"
  shows "snd (add_missing rs e1 []) = filter (\<lambda>f. \<not> has_field e f) (first_occurrences rs)"
proof -
  have "filter (\<lambda>f. \<not> has_field e1 f) (first_occurrences rs) =
        filter (\<lambda>f. \<not> has_field e f) (first_occurrences rs)"
    by (rule filter_cong) (auto simp: set_first_occurrences assms)
  then show ?thesis by (simp add: add_missing_list)
qed

lemma append_report_ok:
  assumes "map_of e ''ID'' = Some i" and "map_of e ''ENTRYTYPE'' = Some t"
  shows "append_report e ms rep =
    Inr (e, if ms = [] then rep
            else rep @ [\<lparr>item_ID = i, item_ENTRYTYPE = t, missing_fields = ms\<rparr>])"
  using assms by (simp add: append_report_def getitem_def)

text \<open>
  C6. For an entry that carries a key and a type, and any list of required fields, both
  variants of \<^verbatim>\<open>check_required_fields\<close> return (no exception is raised). The fields added
  are exactly the required fields absent from the entry, each with the empty string as its
  value; the fields the entry had keep their values (and \<^verbatim>\<open>main.py\<close> drops the fields that
  are not required). The list \<open>missing\<close> holds the added fields once each, in the order of
  the required list (in the order of first occurrence, should the list repeat a field). The
  report grows by exactly one item, carrying the entry's key, its type and \<open>missing\<close>, iff
  \<open>missing\<close> is not empty, and is unchanged otherwise.
\<close>

theorem check_required_fields_fills:
  assumes "map_of entry ''ID'' = Some i" and "map_of entry ''ENTRYTYPE'' = Some t"
  shows "\<exists>missing entry' entry_main report'.
    missing = filter (\<lambda>f. \<not> has_field entry f) (first_occurrences required_fields) \<and>
    set missing = {f \<in> set required_fields. \<not> has_field entry f} \<and>
    distinct missing \<and> subseq missing required_fields \<and>
    (distinct required_fields \<longrightarrow>
       missing = filter (\<lambda>f. \<not> has_field entry f) required_fields) \<and>
    report' = (if missing = [] then report
               else report @ [\<lparr>item_ID = i, item_ENTRYTYPE = t, missing_fields = missing\<rparr>]) \<and>
    check_required_fields entry required_fields report = Inr (entry', report') \<and>
    map_of entry' =
      (\<lambda>k. if k \<in> set required_fields \<and> \<not> has_field entry k then Some '''' else map_of entry k) \<and>
    check_required_fields_main entry required_fields report = Inr (entry_main, report') \<and>
    map_of entry_main =
      (\<lambda>k. if k \<in> set required_fields \<and> \<not> has_field entry k then Some ''''
           else if k \<in> set required_fields \<or> k = ''ID'' \<or> k = ''ENTRYTYPE'' then map_of entry k
           else None)"
proof -
  define missing where
    "missing = filter (\<lambda>f. \<not> has_field entry f) (first_occurrences required_fields)"
  define report' where
    "report' = (if missing = [] then report
                else report @ [\<lparr>item_ID = i, item_ENTRYTYPE = t, missing_fields = missing\<rparr>])"
  define entry1 where
    "entry1 = fold AList.delete (fields_to_remove entry required_fields) entry"
  obtain e' ms where am: "add_missing required_fields entry [] = (e', ms)"
    by (cases "add_missing required_fields entry []")
  obtain e2 ms2 where am2: "add_missing required_fields entry1 [] = (e2, ms2)"
    by (cases "add_missing required_fields entry1 []")
  have map1: "map_of entry1 =
      (\<lambda>k. if k \<in> set required_fields \<or> k = ''ID'' \<or> k = ''ENTRYTYPE'' then map_of entry k else None)"
    unfolding entry1_def by (rule map_of_removed)
  have ms: "ms = missing"
    using add_missing_list [of required_fields entry "[]"] am by (simp add: missing_def)
  have ms2: "ms2 = missing"
    using add_missing_restricted [of required_fields entry1 entry] am2
    by (simp add: missing_def has_field_def map1)
  have me': "map_of e' =
      (\<lambda>k. if k \<in> set required_fields \<and> \<not> has_field entry k then Some '''' else map_of entry k)"
    using add_missing_entry [of required_fields entry "[]"] am by simp
  have me2: "map_of e2 =
      (\<lambda>k. if k \<in> set required_fields \<and> \<not> has_field entry k then Some ''''
           else if k \<in> set required_fields \<or> k = ''ID'' \<or> k = ''ENTRYTYPE'' then map_of entry k
           else None)"
    using add_missing_entry [of required_fields entry1 "[]"] am2
    by (auto simp: fun_eq_iff map1 has_field_def)
  have id': "map_of e' ''ID'' = Some i" "map_of e' ''ENTRYTYPE'' = Some t"
    using assms by (simp_all add: me' has_field_def)
  have id2: "map_of e2 ''ID'' = Some i" "map_of e2 ''ENTRYTYPE'' = Some t"
    using assms by (simp_all add: me2 has_field_def)
  have r1: "check_required_fields entry required_fields report = Inr (e', report')"
    by (simp add: check_required_fields_def am ms append_report_ok [OF id'] report'_def)
  have r2: "check_required_fields_main entry required_fields report = Inr (e2, report')"
    using am2 by (simp add: check_required_fields_main_def entry1_def [symmetric] ms2
        append_report_ok [OF id2] report'_def)
  have p1: "set missing = {f \<in> set required_fields. \<not> has_field entry f}"
    by (auto simp: missing_def set_first_occurrences)
  have p2: "distinct missing"
    by (simp add: missing_def distinct_first_occurrences)
  have p3: "subseq missing required_fields"
    unfolding missing_def
    using subseq_filter_left subseq_first_occurrences subseq_order.trans by blast
  have p4: "distinct required_fields \<longrightarrow>
       missing = filter (\<lambda>f. \<not> has_field entry f) required_fields"
    by (simp add: missing_def first_occurrences_distinct)
  show ?thesis
    using p1 p2 p3 p4 r1 r2 me' me2 missing_def report'_def by blast
qed


theorem check_required_fields_fills_witness:
  "check_required_fields
     [(''ID'', ''smith2020''), (''ENTRYTYPE'', ''article''), (''author'', ''Smith, J.''),
      (''title'', ''On Things'')]
     [''author'', ''title'', ''journal'', ''year''] [] =
   Inr ([(''ID'', ''smith2020''), (''ENTRYTYPE'', ''article''), (''author'', ''Smith, J.''),
         (''title'', ''On Things''), (''journal'', ''''), (''year'', '''')],
        [\<lparr>item_ID = ''smith2020'', item_ENTRYTYPE = ''article'',
          missing_fields = [''journal'', ''year'']\<rparr>])"
  using check_required_fields_fills
    [of "[(''ID'', ''smith2020''), (''ENTRYTYPE'', ''article''), (''author'', ''Smith, J.''),
          (''title'', ''On Things'')]"
        "''smith2020''" "''article''" "[''author'', ''title'', ''journal'', ''year'']" "[]"]
  by (simp add: has_field_def check_required_fields_def append_report_def getitem_def
      setitem_def)








section \<open>Properties of the record loader\<close>

lemma first_seen_positions_snoc:
  "first_seen_positions (ks @ [k]) =
     first_seen_positions ks @ (if k \<in> set ks then [] else [length ks])"
proof -
  have a: "filter (\<lambda>i. \<forall>j<i. (ks @ [k]) ! j \<noteq> (ks @ [k]) ! i) [0..<length ks] =
        filter (\<lambda>i. \<forall>j<i. ks ! j \<noteq> ks ! i) [0..<length ks]"
    by (rule filter_cong) (auto simp: nth_append)
  have b: "(\<forall>j<length ks. (ks @ [k]) ! j \<noteq> k) = (k \<notin> set ks)"
    by (auto simp: nth_append in_set_conv_nth)
  show ?thesis
    unfolding first_seen_positions_def using a b by simp
qed

lemma seen_again_positions_snoc:
  "seen_again_positions (ks @ [k]) =
     seen_again_positions ks @ (if k \<in> set ks then [length ks] else [])"
proof -
  define P where "P = (\<lambda>i. \<exists>j<i. (ks @ [k]) ! j = (ks @ [k]) ! i)"
  have a: "filter P [0..<length ks] = filter (\<lambda>i. \<exists>j<i. ks ! j = ks ! i) [0..<length ks]"
    unfolding P_def by (rule filter_cong) (simp_all add: nth_append cong: conj_cong)
  have "P (length ks) = (\<exists>j<length ks. ks ! j = k)"
    unfolding P_def by (simp add: nth_append cong: conj_cong)
  then have b: "P (length ks) = (k \<in> set ks)"
    by (metis in_set_conv_nth)
  have "seen_again_positions (ks @ [k]) = filter P ([0..<length ks] @ [length ks])"
    unfolding seen_again_positions_def P_def by simp
  also have "\<dots> = filter P [0..<length ks] @ (if P (length ks) then [length ks] else [])"
    by simp
  finally show ?thesis
    by (simp only: a b seen_again_positions_def)
qed

lemma first_seen_positions_bound: "i \<in> set (first_seen_positions ks) \<Longrightarrow> i < length ks"
  by (simp add: first_seen_positions_def)

lemma seen_again_positions_bound: "i \<in> set (seen_again_positions ks) \<Longrightarrow> i < length ks"
  by (simp add: seen_again_positions_def)

lemma map_nth_snoc:
  assumes "\<And>i. i \<in> set is \<Longrightarrow> i < length xs"
  shows "map (\<lambda>i. f ((xs @ [x]) ! i)) is = map (\<lambda>i. f (xs ! i)) is"
  by (rule map_cong) (auto simp: nth_append dest: assms)

lemma first_seen_keys_snoc:
  "map ((!) (ks @ [k])) (first_seen_positions (ks @ [k])) =
     map ((!) ks) (first_seen_positions ks) @ (if k \<in> set ks then [] else [k])"
  using map_nth_snoc [of "first_seen_positions ks" ks "\<lambda>x. x" k]
  by (simp add: first_seen_positions_snoc first_seen_positions_bound)

lemma set_first_seen_keys: "set (map ((!) ks) (first_seen_positions ks)) = set ks"
proof (induction ks rule: rev_induct)
  case Nil
  then show ?case by (simp add: first_seen_positions_def)
next
  case (snoc k ks)
  show ?case
    unfolding first_seen_keys_snoc using snoc.IH by auto
qed

lemma distinct_first_seen_keys: "distinct (map ((!) ks) (first_seen_positions ks))"
proof (induction ks rule: rev_induct)
  case Nil
  then show ?case by (simp add: first_seen_positions_def)
next
  case (snoc k ks)
  show ?case
    unfolding first_seen_keys_snoc using snoc.IH set_first_seen_keys [of ks] by auto
qed

lemma first_seen_keys_first_occurrences:
  "map ((!) ks) (first_seen_positions ks) = first_occurrences ks"
proof (induction ks rule: rev_induct)
  case Nil
  then show ?case by (simp add: first_seen_positions_def)
next
  case (snoc k ks)
  have "first_occurrences (xs @ [k]) = first_occurrences xs @ (if k \<in> set xs then [] else [k])" for xs
    by (induction xs) (auto simp: set_first_occurrences)
  then show ?case
    unfolding first_seen_keys_snoc using snoc.IH by simp
qed


lemma kept_entries_snoc:
  "kept_entries (pre @ [x]) =
     kept_entries pre @
       (if entry_key (snd x) \<in> set (map (entry_key \<circ> snd) pre) then [] else [snd x])"
proof -
  have "map (\<lambda>i. snd ((pre @ [x]) ! i)) (first_seen_positions (map (entry_key \<circ> snd) pre)) =
        map (\<lambda>i. snd (pre ! i)) (first_seen_positions (map (entry_key \<circ> snd) pre))"
    by (rule map_nth_snoc) (use first_seen_positions_bound in fastforce)
  then show ?thesis
    by (simp add: kept_entries_def first_seen_positions_snoc)
qed

lemma duplicate_reports_snoc:
  "duplicate_reports (pre @ [x]) =
     duplicate_reports pre @
       (if entry_key (snd x) \<in> set (map (entry_key \<circ> snd) pre)
        then [duplicate_message (entry_key (snd x)) (fst x)] else [])"
proof -
  have "map (\<lambda>i. (\<lambda>p. duplicate_message (entry_key (snd p)) (fst p)) ((pre @ [x]) ! i))
          (seen_again_positions (map (entry_key \<circ> snd) pre)) =
        map (\<lambda>i. (\<lambda>p. duplicate_message (entry_key (snd p)) (fst p)) (pre ! i))
          (seen_again_positions (map (entry_key \<circ> snd) pre))"
    by (rule map_nth_snoc) (use seen_again_positions_bound in fastforce)
  then show ?thesis
    by (simp add: duplicate_reports_def seen_again_positions_snoc)
qed

lemma keys_kept_entries:
  "map entry_key (kept_entries tagged) =
     map ((!) (map (entry_key \<circ> snd) tagged)) (first_seen_positions (map (entry_key \<circ> snd) tagged))"
  unfolding kept_entries_def map_map
  by (rule map_cong) (use first_seen_positions_bound in fastforce)+

lemma set_keys_kept_entries:
  "set (map entry_key (kept_entries tagged)) = set (map (entry_key \<circ> snd) tagged)"
  unfolding keys_kept_entries by (rule set_first_seen_keys)

lemma distinct_keys_kept_entries: "distinct (map entry_key (kept_entries tagged))"
  unfolding keys_kept_entries by (rule distinct_first_seen_keys)

lemma map_of_keyed_None:
  "(map_of (map (\<lambda>e. (entry_key e, e)) es) k = None) = (k \<notin> set (map entry_key es))"
  by (induction es) auto

lemma update_absent: "map_of al k = None \<Longrightarrow> AList.update k v al = al @ [(k, v)]"
  by (induction al) auto

lemma getitem_ID: "has_field e ''ID'' \<Longrightarrow> getitem e ''ID'' = Inr (entry_key e)"
  by (auto simp: has_field_def getitem_def entry_key_def dict_get_def)

lemma read_entries_spec:
  assumes "\<forall>e \<in> set es. has_field e ''ID''"
  shows "read_entries fn es (map (\<lambda>e. (entry_key e, e)) (kept_entries pre)) (duplicate_reports pre) =
     Inr (map (\<lambda>e. (entry_key e, e)) (kept_entries (pre @ map (Pair fn) es)),
          duplicate_reports (pre @ map (Pair fn) es))"
  using assms
proof (induction es arbitrary: pre)
  case Nil
  then show ?case by simp
next
  case (Cons e es)
  have id: "getitem e ''ID'' = Inr (entry_key e)"
    using Cons.prems by (simp add: getitem_ID)
  have rest: "\<forall>e \<in> set es. has_field e ''ID''"
    using Cons.prems by simp
  have app: "pre @ map (Pair fn) (e # es) = (pre @ [(fn, e)]) @ map (Pair fn) es"
    by simp
  let ?keyed = "map (\<lambda>e. (entry_key e, e))"
  show ?case
  proof (cases "entry_key e \<in> set (map (entry_key \<circ> snd) pre)")
    case True
    have "entry_key e \<in> set (map entry_key (kept_entries pre))"
      unfolding set_keys_kept_entries by (rule True)
    then have nn: "map_of (?keyed (kept_entries pre)) (entry_key e) \<noteq> None"
      by (simp only: map_of_keyed_None simp_thms)
    have k: "kept_entries (pre @ [(fn, e)]) = kept_entries pre"
      using True by (simp add: kept_entries_snoc)
    have d: "duplicate_reports (pre @ [(fn, e)]) =
        duplicate_reports pre @ [duplicate_message (entry_key e) fn]"
      using True by (simp add: duplicate_reports_snoc)
    have "read_entries fn (e # es) (?keyed (kept_entries pre)) (duplicate_reports pre) =
          read_entries fn es (?keyed (kept_entries pre))
            (duplicate_reports pre @ [duplicate_message (entry_key e) fn])"
      by (simp add: id nn)
    also have "\<dots> = read_entries fn es (?keyed (kept_entries (pre @ [(fn, e)])))
            (duplicate_reports (pre @ [(fn, e)]))"
      by (simp only: k d)
    also have "\<dots> = Inr (?keyed (kept_entries ((pre @ [(fn, e)]) @ map (Pair fn) es)),
          duplicate_reports ((pre @ [(fn, e)]) @ map (Pair fn) es))"
      by (rule Cons.IH [OF rest])
    finally show ?thesis by (simp only: app)
  next
    case False
    have "entry_key e \<notin> set (map entry_key (kept_entries pre))"
      unfolding set_keys_kept_entries by (rule False)
    then have n: "map_of (?keyed (kept_entries pre)) (entry_key e) = None"
      by (simp only: map_of_keyed_None simp_thms)
    have k: "kept_entries (pre @ [(fn, e)]) = kept_entries pre @ [e]"
      using False by (simp add: kept_entries_snoc)
    have d: "duplicate_reports (pre @ [(fn, e)]) = duplicate_reports pre"
      using False by (simp add: duplicate_reports_snoc)
    have u: "AList.update (entry_key e) e (?keyed (kept_entries pre)) =
          ?keyed (kept_entries (pre @ [(fn, e)]))"
      by (simp add: update_absent [OF n] k)
    have "read_entries fn (e # es) (?keyed (kept_entries pre)) (duplicate_reports pre) =
          read_entries fn es (AList.update (entry_key e) e (?keyed (kept_entries pre)))
            (duplicate_reports pre)"
      by (simp add: id n)
    also have "\<dots> = read_entries fn es (?keyed (kept_entries (pre @ [(fn, e)])))
            (duplicate_reports (pre @ [(fn, e)]))"
      by (simp only: u d)
    also have "\<dots> = Inr (?keyed (kept_entries ((pre @ [(fn, e)]) @ map (Pair fn) es)),
          duplicate_reports ((pre @ [(fn, e)]) @ map (Pair fn) es))"
      by (rule Cons.IH [OF rest])
    finally show ?thesis by (simp only: app)
  qed
qed

lemma traversal_Cons:
  "traversal ((fn, es) # rest) suf =
     (if endswith fn suf then map (Pair fn) es else []) @ traversal rest suf"
  by (simp add: traversal_def)

lemma read_files_spec:
  assumes "\<forall>e \<in> set (map snd (traversal listing suf)). has_field e ''ID''"
  shows "read_files suf listing (map (\<lambda>e. (entry_key e, e)) (kept_entries pre)) (duplicate_reports pre) =
     Inr (map (\<lambda>e. (entry_key e, e)) (kept_entries (pre @ traversal listing suf)),
          duplicate_reports (pre @ traversal listing suf))"
  using assms
proof (induction listing arbitrary: pre)
  case Nil
  then show ?case by (simp add: traversal_def)
next
  case (Cons f rest)
  obtain fn es where f: "f = (fn, es)" by (cases f)
  show ?case
  proof (cases "endswith fn suf")
    case True
    have es: "\<forall>e \<in> set es. has_field e ''ID''"
      using Cons.prems True unfolding f traversal_Cons by force
    have r: "\<forall>e \<in> set (map snd (traversal rest suf)). has_field e ''ID''"
      using Cons.prems True unfolding f traversal_Cons by simp
    show ?thesis
      using Cons.IH [OF r, of "pre @ map (Pair fn) es"] True
      by (simp add: f traversal_Cons read_entries_spec [OF es])
  next
    case False
    have r: "\<forall>e \<in> set (map snd (traversal rest suf)). has_field e ''ID''"
      using Cons.prems False unfolding f traversal_Cons by simp
    show ?thesis
      using Cons.IH [OF r, of pre] False by (simp add: f traversal_Cons)
  qed
qed

lemma kept_entries_Nil: "kept_entries [] = []"
  by (simp add: kept_entries_def first_seen_positions_def)

lemma duplicate_reports_Nil: "duplicate_reports [] = []"
  by (simp add: duplicate_reports_def seen_again_positions_def)

lemma positions_partition:
  "length (first_seen_positions ks) + length (seen_again_positions ks) = length ks"
  by (induction ks rule: rev_induct)
     (simp_all add: first_seen_positions_snoc seen_again_positions_snoc,
      simp_all add: first_seen_positions_def seen_again_positions_def)

text \<open>
  C2. Let the traversal be the entries of the files whose name ends with the suffix, in
  listing order. If each of them carries a key, the loader returns (for \<^verbatim>\<open>process_bib.py\<close>
  the suffix is \<^verbatim>\<open>.bib\<close>). The returned list holds, in traversal order, exactly the entries at
  the positions where a key occurs for the first time, each as the parser gave it; so its
  keys are pairwise distinct and are the keys of the traversal in first-seen order. For
  each position where a key occurs again, the line
  \<^verbatim>\<open>Duplicate entry ID '<key>' found in <file>, ignoring duplicate.\<close> with the key of the entry
  and the name of its file is printed, in traversal order, and the entry there is dropped:
  kept entries and printed lines together are as many as the traversal has entries.
\<close>

theorem read_bib_files_first_seen:
  assumes "\<forall>e \<in> set (map snd (traversal listing suf)). has_field e ''ID''"
  shows "\<exists>result printed.
    read_bib_files_main listing suf = Inr (result, printed) \<and>
    (suf = ''.bib'' \<longrightarrow> read_bib_files listing = Inr (result, printed)) \<and>
    result = kept_entries (traversal listing suf) \<and>
    printed =
      map (\<lambda>i. ''Duplicate entry ID '' @ [CHR 0x27] @
                 entry_key (snd (traversal listing suf ! i)) @ [CHR 0x27] @
                 '' found in '' @ fst (traversal listing suf ! i) @ '', ignoring duplicate.'')
        (seen_again_positions (map (entry_key \<circ> snd) (traversal listing suf))) \<and>
    distinct (map entry_key result) \<and>
    map entry_key result = first_occurrences (map (entry_key \<circ> snd) (traversal listing suf)) \<and>
    length result + length printed = length (traversal listing suf)"
proof -
  have "read_files suf listing [] [] =
     Inr (map (\<lambda>e. (entry_key e, e)) (kept_entries (traversal listing suf)),
          duplicate_reports (traversal listing suf))"
    using read_files_spec [OF assms, of "[]"]
    by (simp add: kept_entries_Nil duplicate_reports_Nil)
  then have r: "read_bib_files_main listing suf =
      Inr (kept_entries (traversal listing suf), duplicate_reports (traversal listing suf))"
    by (simp add: read_bib_files_main_def comp_def)
  have l: "length (kept_entries (traversal listing suf)) +
        length (duplicate_reports (traversal listing suf)) = length (traversal listing suf)"
    using positions_partition [of "map (entry_key \<circ> snd) (traversal listing suf)"]
    by (simp add: kept_entries_def duplicate_reports_def)
  have p: "duplicate_reports (traversal listing suf) =
      map (\<lambda>i. ''Duplicate entry ID '' @ [CHR 0x27] @
                 entry_key (snd (traversal listing suf ! i)) @ [CHR 0x27] @
                 '' found in '' @ fst (traversal listing suf ! i) @ '', ignoring duplicate.'')
        (seen_again_positions (map (entry_key \<circ> snd) (traversal listing suf)))"
    by (simp add: duplicate_reports_def duplicate_message_def)
  show ?thesis
    using r l distinct_keys_kept_entries [of "traversal listing suf"]
      keys_kept_entries [of "traversal listing suf"]
    unfolding p
    by (auto simp: read_bib_files_def first_seen_keys_first_occurrences)
qed

lemma loader_example:
  "read_bib_files_main
     [(''a.bib'', [[(''ID'', ''smith2020''), (''title'', ''First'')]]),
      (''notes.txt'', [[(''ID'', ''x'')]]),
      (''b.bib'', [[(''ID'', ''smith2020''), (''title'', ''Second'')], [(''ID'', ''lee2019'')]]),
      (''c.bib'', [[(''ID'', ''lee2019''), (''title'', ''Third'')]])]
     ''.bib'' =
   Inr ([[(''ID'', ''smith2020''), (''title'', ''First'')], [(''ID'', ''lee2019'')]],
        [''Duplicate entry ID 'smith2020' found in b.bib, ignoring duplicate.'',
         ''Duplicate entry ID 'lee2019' found in c.bib, ignoring duplicate.''])"
  by code_simp

theorem read_bib_files_first_seen_witness:
  "read_bib_files
     [(''a.bib'', [[(''ID'', ''smith2020''), (''title'', ''First'')]]),
      (''notes.txt'', [[(''ID'', ''x'')]]),
      (''b.bib'', [[(''ID'', ''smith2020''), (''title'', ''Second'')], [(''ID'', ''lee2019'')]]),
      (''c.bib'', [[(''ID'', ''lee2019''), (''title'', ''Third'')]])] =
   Inr ([[(''ID'', ''smith2020''), (''title'', ''First'')], [(''ID'', ''lee2019'')]],
        [''Duplicate entry ID 'smith2020' found in b.bib, ignoring duplicate.'',
         ''Duplicate entry ID 'lee2019' found in c.bib, ignoring duplicate.'']) \<and>
   distinct (map entry_key [[(''ID'', ''smith2020''), (''title'', ''First'')], [(''ID'', ''lee2019'')]])"
proof -
  let ?L = "[(''a.bib'', [[(''ID'', ''smith2020''), (''title'', ''First'')]]),
      (''notes.txt'', [[(''ID'', ''x'')]]),
      (''b.bib'', [[(''ID'', ''smith2020''), (''title'', ''Second'')], [(''ID'', ''lee2019'')]]),
      (''c.bib'', [[(''ID'', ''lee2019''), (''title'', ''Third'')]])]"
  have t: "traversal ?L ''.bib'' =
      [(''a.bib'', [(''ID'', ''smith2020''), (''title'', ''First'')]),
       (''b.bib'', [(''ID'', ''smith2020''), (''title'', ''Second'')]),
       (''b.bib'', [(''ID'', ''lee2019'')]),
       (''c.bib'', [(''ID'', ''lee2019''), (''title'', ''Third'')])]"
    by code_simp
  have h: "\<forall>e \<in> set (map snd (traversal ?L ''.bib'')). has_field e ''ID''"
    unfolding t by (simp add: has_field_def)
  from read_bib_files_first_seen [OF h] obtain result printed where
    r: "read_bib_files_main ?L ''.bib'' = Inr (result, printed)" and
    b: "read_bib_files ?L = Inr (result, printed)" and
    d: "distinct (map entry_key result)"
    by auto
  from r have "result = [[(''ID'', ''smith2020''), (''title'', ''First'')], [(''ID'', ''lee2019'')]]"
    and "printed = [''Duplicate entry ID 'smith2020' found in b.bib, ignoring duplicate.'',
         ''Duplicate entry ID 'lee2019' found in c.bib, ignoring duplicate.'']"
    unfolding loader_example by simp_all
  with b d show ?thesis by simp
qed

section \<open>Properties of the consistency detector\<close>




















section \<open>Properties of the sorter\<close>
































section \<open>Properties of the author normalization\<close>

lemma dropWhile_all_iff:
  "(\<forall>c \<in> set (dropWhile P xs). P c) = (\<forall>c \<in> set xs. P c)"
proof (induction xs)
  case Nil
  then show ?case by simp
next
  case (Cons x xs)
  then show ?case by auto
qed

lemma py_strip_empty_iff: "(py_strip s = []) = (\<forall>c \<in> set s. isspace c)"
proof -
  have "(py_strip s = []) = (\<forall>c \<in> set (dropWhile isspace s). isspace c)"
    by (simp add: py_strip_def dropWhile_eq_Nil_conv)
  then show ?thesis
    by (simp only: dropWhile_all_iff)
qed

lemma py_strip_has_word:
  assumes "py_strip s \<noteq> []"
  shows "\<exists>c \<in> set (py_strip s). \<not> isspace c"
proof -
  let ?d = "dropWhile isspace (rev (dropWhile isspace s))"
  from assms have ne: "?d \<noteq> []"
    by (simp add: py_strip_def)
  then have "\<not> isspace (hd ?d)"
    by (rule hd_dropWhile)
  moreover have "hd ?d \<in> set (py_strip s)"
    using ne by (simp add: py_strip_def)
  ultimately show ?thesis by blast
qed

lemma split_ws_empty_iff:
  "(split_ws cur s = []) = (cur = [] \<and> (\<forall>c \<in> set s. isspace c))"
  by (induction s arbitrary: cur) auto

lemma py_split_empty_iff: "(py_split s = []) = (\<forall>c \<in> set s. isspace c)"
  by (simp add: py_split_def split_ws_empty_iff)

lemma standardize_author_error:
  assumes "py_strip a = []"
  shows "standardize_author a = Inl IndexError"
  using assms by (simp add: standardize_author_def py_split_def)

lemma standardize_author_ok:
  assumes "py_strip a \<noteq> []"
  shows "\<exists>r. standardize_author a = Inr r"
proof (cases "CHR '','' \<in> set (py_strip a)")
  case True
  then show ?thesis
    by (simp add: standardize_author_def py_split_once_def Let_def)
next
  case False
  from py_strip_has_word [OF assms] have "py_split (py_strip a) \<noteq> []"
    by (simp add: py_split_empty_iff)
  then obtain n ns where "py_split (py_strip a) = n # ns"
    by (cases "py_split (py_strip a)") auto
  with False show ?thesis
    by (simp add: standardize_author_def Let_def)
qed

lemma standardize_loop_error:
  assumes "\<exists>a \<in> set as. py_strip a = []"
  shows "standardize_loop as acc = Inl IndexError"
  using assms
proof (induction as arbitrary: acc)
  case Nil
  then show ?case by simp
next
  case (Cons a as)
  show ?case
  proof (cases "py_strip a = []")
    case True
    then show ?thesis by (simp add: standardize_author_error)
  next
    case False
    then obtain r where "standardize_author a = Inr r"
      using standardize_author_ok by blast
    moreover from False Cons.prems have "\<exists>a \<in> set as. py_strip a = []"
      by auto
    ultimately show ?thesis
      by (simp add: Cons.IH)
  qed
qed

lemma standardize_loop_ok:
  assumes "\<forall>a \<in> set as. py_strip a \<noteq> []"
  shows "\<exists>r. standardize_loop as acc = Inr r"
  using assms
proof (induction as arbitrary: acc)
  case Nil
  then show ?case by simp
next
  case (Cons a as)
  from Cons.prems have "py_strip a \<noteq> []"
    by simp
  from standardize_author_ok [OF this] obtain r where "standardize_author a = Inr r"
    by blast
  moreover from Cons.prems have "\<forall>a \<in> set as. py_strip a \<noteq> []"
    by simp
  ultimately show ?case
    using Cons.IH [of "acc @ [r]"] by simp
qed

lemma standardize_authors_examples:
  "re_split_and '''' = ['''']"
  "re_split_and ''Smith and '' = [''Smith'', '''']"
  "standardize_authors '''' = Inl IndexError"
  "standardize_authors ''Smith and '' = Inl IndexError"
  by code_simp+

text \<open>
  C10 (as amended). \<^verbatim>\<open>standardize_authors\<close> is partial. The author string, ASCII text, is
  cut into segments at each match of the separator pattern \<^verbatim>\<open>\s+and\s+\<close>: the word \<^verbatim>\<open>and\<close>
  between two runs of whitespace, each run taken whole. The call raises \<^verbatim>\<open>IndexError\<close>
  exactly when some segment is empty after trimming, and returns a string when every
  segment is non-empty after trimming. The empty string is its own single segment, and
  \<^verbatim>\<open>Smith and \<close> has the segments \<^verbatim>\<open>Smith\<close> and the empty string: both raise.
\<close>

theorem standardize_authors_partial:
  assumes "isascii author_field"
  shows
  "(standardize_authors author_field = Inl IndexError) =
     (\<exists>seg \<in> set (re_split_and author_field). py_strip seg = []) \<and>
   ((\<forall>seg \<in> set (re_split_and author_field). py_strip seg \<noteq> []) \<longrightarrow>
     (\<exists>r. standardize_authors author_field = Inr r)) \<and>
   re_split_and '''' = [''''] \<and>
   standardize_authors '''' = Inl IndexError \<and>
   re_split_and ''Smith and '' = [''Smith'', ''''] \<and>
   standardize_authors ''Smith and '' = Inl IndexError"
proof -
  have ok: "\<exists>r. standardize_authors author_field = Inr r"
    if "\<forall>seg \<in> set (re_split_and author_field). py_strip seg \<noteq> []"
  proof -
    from standardize_loop_ok [OF that] obtain r where
      "standardize_loop (re_split_and author_field) [] = Inr r" by blast
    then show ?thesis by (simp add: standardize_authors_def)
  qed
  have err: "standardize_authors author_field = Inl IndexError"
    if "\<exists>seg \<in> set (re_split_and author_field). py_strip seg = []"
    using standardize_loop_error [OF that] by (simp add: standardize_authors_def)
  have "(standardize_authors author_field = Inl IndexError) =
     (\<exists>seg \<in> set (re_split_and author_field). py_strip seg = [])"
    using ok err by fastforce
  then show ?thesis
    using ok standardize_authors_examples by blast
qed

lemma standardize_authors_example_ok:
  "re_split_and ''John Smith and Doe, jane'' = [''John Smith'', ''Doe, jane'']"
  "standardize_authors ''John Smith and Doe, jane'' = Inr ''Smith, John and Doe, Jane''"
  "py_strip ''John Smith'' = ''John Smith''"
  "py_strip ''Doe, jane'' = ''Doe, jane''"
  "isascii ''John Smith and Doe, jane''"
  by code_simp+

theorem standardize_authors_partial_witness:
  "re_split_and ''John Smith and Doe, jane'' = [''John Smith'', ''Doe, jane''] \<and>
   py_strip ''John Smith'' \<noteq> [] \<and> py_strip ''Doe, jane'' \<noteq> [] \<and>
   standardize_authors ''John Smith and Doe, jane'' = Inr ''Smith, John and Doe, Jane'' \<and>
   standardize_authors ''John Smith and Doe, jane'' \<noteq> Inl IndexError"
proof -
  have h: "\<forall>seg \<in> set (re_split_and ''John Smith and Doe, jane''). py_strip seg \<noteq> []"
    by (simp add: standardize_authors_example_ok)
  with standardize_authors_partial [OF standardize_authors_example_ok(5)]
  have "(\<exists>r. standardize_authors ''John Smith and Doe, jane'' = Inr r) \<and>
      standardize_authors ''John Smith and Doe, jane'' \<noteq> Inl IndexError"
    by blast
  then show ?thesis
    by (simp add: standardize_authors_example_ok)
qed

text \<open>
  The claim as stated takes the segments at the literal separator \<^verbatim>\<open> and \<close>. Those are
  not the segments of the code, in either direction. In \<^verbatim>\<open>a and  and b\<close> the literal
  separator occurs twice with nothing in between, so there is an empty literal segment,
  but the code returns: its separator takes both spaces behind the first \<^verbatim>\<open>and\<close>, and the
  second \<^verbatim>\<open>and\<close> starts a name. In \<^verbatim>\<open>Smith<TAB>and<TAB>\<close> the literal separator does not
  occur, so the one literal segment is non-empty, but the code raises: a tab is whitespace
  for its separator, and the segment behind it is empty.
\<close>

theorem standardize_authors_literal_counterexample:
  "literal_segments ''a and  and b'' = [''a'', '''', ''b''] \<and>
   py_strip '''' = [] \<and>
   standardize_authors ''a and  and b'' = Inr ''A and B, And'' \<and>
   literal_segments (''Smith'' @ [CHR 0x09] @ ''and'' @ [CHR 0x09]) =
     [''Smith'' @ [CHR 0x09] @ ''and'' @ [CHR 0x09]] \<and>
   py_strip (''Smith'' @ [CHR 0x09] @ ''and'' @ [CHR 0x09]) = ''Smith'' @ [CHR 0x09] @ ''and'' \<and>
   standardize_authors (''Smith'' @ [CHR 0x09] @ ''and'' @ [CHR 0x09]) = Inl IndexError \<and>
   re_split_and ''a and  and b'' = [''a'', ''and b''] \<and>
   re_split_and (''Smith'' @ [CHR 0x09] @ ''and'' @ [CHR 0x09]) = [''Smith'', '''']"
  by code_simp

section \<open>Properties of the matcher and of the key extractor\<close>

lemma rmatch_Star_Nil [simp]: "rmatch (Star P) [] k = k []"
  by (simp add: rmatch.simps(6))

lemma rmatch_Star_Cons [simp]:
  "rmatch (Star P) (x # xs) k =
     (if P x then (case rmatch (Star P) xs k of Some r \<Rightarrow> Some r | None \<Rightarrow> k (x # xs))
      else k (x # xs))"
  by (simp add: rmatch.simps(6))

lemma rmatch_LazyStar_Nil [simp]: "rmatch (LazyStar P) [] k = k []"
  by (simp add: rmatch.simps(7) split: option.splits)

lemma rmatch_LazyStar_Cons [simp]:
  "rmatch (LazyStar P) (x # xs) k =
     (case k (x # xs) of
        Some r \<Rightarrow> Some r
      | None \<Rightarrow> if P x then rmatch (LazyStar P) xs k else None)"
  by (simp add: rmatch.simps(7) split: option.splits)

lemma rmatch_Star_greedy:
  assumes "\<And>x xs. P x \<Longrightarrow> k (x # xs) = None"
  shows "rmatch (Star P) s k = k (dropWhile P s)"
proof (induction s)
  case Nil
  then show ?case by simp
next
  case (Cons x xs)
  show ?case
  proof (cases "P x")
    case True
    show ?thesis
    proof (cases "k (dropWhile P xs)")
      case None
      with True Cons.IH assms [OF True, of xs] show ?thesis by simp
    next
      case (Some r)
      with True Cons.IH show ?thesis by simp
    qed
  next
    case False
    then show ?thesis by simp
  qed
qed

lemma rmatch_Star_total:
  assumes "\<And>t. k t \<noteq> None"
  shows "rmatch (Star P) s k = k (dropWhile P s)"
proof (induction s)
  case Nil
  then show ?case by simp
next
  case (Cons x xs)
  from assms [of "dropWhile P xs"] obtain r where "k (dropWhile P xs) = Some r"
    by blast
  with Cons.IH show ?case by simp
qed

lemma rmatch_Lits:
  "rmatch (Lits cs r) s k = (if prefix cs s then rmatch r (drop (length cs) s) k else None)"
proof (induction cs arbitrary: s)
  case Nil
  then show ?case by simp
next
  case (Cons c cs)
  show ?case
    by (cases s) (simp_all add: Cons.IH)
qed

























section \<open>Title casing, item by item\<close>

lemma map_upt_shift:
  "map (\<lambda>j. f (i + j) ((t # ts) ! j)) [0..<Suc (length ts)] =
     f i t # map (\<lambda>j. f (Suc i + j) (ts ! j)) [0..<length ts]"
  by (simp add: map_upt_Suc del: upt_Suc)




lemma title_words_main_rule:
  assumes "\<forall>w \<in> set ws. w \<noteq> []"
  shows "title_words_main n i ws =
     Inr (map (\<lambda>j. main_rule n (i + j) (ws ! j)) [0..<length ws])"
  using assms
proof (induction ws arbitrary: i)
  case Nil
  then show ?case by simp
next
  case (Cons w ws)
  from Cons.prems obtain c cs where w: "w = c # cs"
    by (cases w) auto
  have last: "(int i \<noteq> int n - 1) = (Suc i \<noteq> n)"
    by auto
  have head: "(if i \<noteq> 0 \<and> int i \<noteq> int n - 1 \<and> py_lower w \<in> lowercase_words
            then Inr w else upper_first w) = Inr (main_rule n i w)"
    by (simp add: main_rule_def upper_first_def w last)
  have rest: "title_words_main n (Suc i) ws =
     Inr (map (\<lambda>j. main_rule n (Suc i + j) (ws ! j)) [0..<length ws])"
    using Cons.prems by (intro Cons.IH) simp
  show ?case
    unfolding title_words_main.simps head length_Cons map_upt_shift
    using rest by simp
qed

lemma split_ws_nonempty:
  "w \<in> set (split_ws cur s) \<Longrightarrow> w \<noteq> []"
proof (induction s arbitrary: cur)
  case Nil
  then show ?case by (auto split: if_splits)
next
  case (Cons c cs)
  then show ?case
    by (auto split: if_splits)
qed

lemma py_split_nonempty: "w \<in> set (py_split s) \<Longrightarrow> w \<noteq> []"
  unfolding py_split_def by (rule split_ws_nonempty)

lemma title_case_main_rule:
  "title_case_main title =
     Inr (py_join '' '' (map (\<lambda>i. main_rule (length (py_split title)) i (py_split title ! i))
       [0..<length (py_split title)]))"
proof -
  have "\<forall>w \<in> set (py_split title). w \<noteq> []"
    using py_split_nonempty by blast
  from title_words_main_rule [OF this, of "length (py_split title)" 0]
  show ?thesis
    by (simp add: title_case_main_def Let_def)
qed


section \<open>Idempotence of title casing\<close>

lemma upper_upper [simp]: "upper_char (upper_char c) = upper_char c"
  by (auto simp: upper_char_def is_lower_def Let_def)

lemma lower_lower [simp]: "lower_char (lower_char c) = lower_char c"
  by (auto simp: lower_char_def is_upper_def Let_def)

lemma lower_upper [simp]: "lower_char (upper_char c) = lower_char c"
  by (auto simp: lower_char_def upper_char_def is_upper_def is_lower_def Let_def)

lemma upper_lower [simp]: "upper_char (lower_char c) = upper_char c"
  by (auto simp: lower_char_def upper_char_def is_upper_def is_lower_def Let_def)

lemma isspace_upper [simp]: "isspace (upper_char c) = isspace c"
  by (auto simp: upper_char_def is_lower_def isspace_def Let_def)

lemma isspace_lower [simp]: "isspace (lower_char c) = isspace c"
  by (auto simp: lower_char_def is_upper_def isspace_def Let_def)










































































section \<open>Title casing and the rule of the specification\<close>














text \<open>
  A word that begins with a backslash and is no command group, such as \<^verbatim>\<open>\Alpha\<close>, is a
  plain word for the specification, which capitalizes it; the code leaves it unchanged.
\<close>

lemma title_case_backslash_word:
  "title_case (''a '' @ [CHR 0x5C] @ ''Alpha b'') = ''A '' @ [CHR 0x5C] @ ''Alpha B'' \<and>
   title_case_spec small_words as_read (''a '' @ [CHR 0x5C] @ ''Alpha b'') =
     ''A '' @ [CHR 0x5C] @ ''alpha B''"
  by code_simp

section \<open>The separator pattern, and exceptions at the entry points\<close>

text \<open>
  The direct form of the separator match agrees with the backtracking matcher on the
  pattern.
\<close>

lemma not_space_a: "\<not> isspace CHR ''a''"
  by (simp add: isspace_def)

lemma match_sep_regex: "rmatch sep_re s Some = match_sep s"
proof (cases s)
  case Nil
  then show ?thesis by (simp add: sep_re_def Plus_def match_sep_def)
next
  case (Cons c cs)
  let ?k2 = "\<lambda>s'. rmatch (Lits ''and'' (Plus isspace)) s' Some"
  have tail: "rmatch (Plus isspace) r Some =
      (if takeWhile isspace r \<noteq> [] then Some (dropWhile isspace r) else None)" for r
  proof (cases r)
    case Nil
    then show ?thesis by (simp add: Plus_def)
  next
    case (Cons y ys)
    have "rmatch (Star isspace) ys Some = Some (dropWhile isspace ys)"
      by (rule rmatch_Star_total) simp
    with Cons show ?thesis by (simp add: Plus_def)
  qed
  have k2: "?k2 s' =
      (case s' of
         a # n # d # r \<Rightarrow>
           if a = CHR ''a'' \<and> n = CHR ''n'' \<and> d = CHR ''d'' \<and> takeWhile isspace r \<noteq> []
           then Some (dropWhile isspace r) else None
       | _ \<Rightarrow> None)" for s'
    unfolding rmatch_Lits tail
    by (auto simp: prefix_def eval_nat_numeral split: list.splits)
  have fail: "?k2 (x # xs) = None" if "isspace x" for x xs
  proof -
    from that not_space_a have "x \<noteq> CHR ''a''" by auto
    then show ?thesis
      unfolding k2 by (simp split: list.splits)
  qed
  have star: "rmatch (Star isspace) cs ?k2 = ?k2 (dropWhile isspace cs)"
    by (rule rmatch_Star_greedy) (rule fail)
  show ?thesis
  proof (cases "isspace c")
    case True
    have "rmatch sep_re s Some = rmatch (Star isspace) cs ?k2"
      using Cons True by (simp add: sep_re_def Plus_def del: Lits.simps rmatch_Star_Cons)
    also have "\<dots> = ?k2 (dropWhile isspace cs)"
      by (rule star)
    also have "\<dots> = match_sep s"
      unfolding k2 using Cons True by (simp add: match_sep_def)
    finally show ?thesis .
  next
    case False
    with Cons show ?thesis
      by (simp add: sep_re_def Plus_def match_sep_def del: Lits.simps)
  qed
qed

text \<open>
  In \<^verbatim>\<open>process_bib.py\<close> the exception of \<^verbatim>\<open>standardize_authors\<close> reaches the caller of
  \<^verbatim>\<open>correct_capitalization\<close>: an entry whose author field has a segment that is empty
  after trimming, such as an empty author field, aborts the run.
\<close>

lemma correct_capitalization_raises:
  assumes "map_of entry ''author'' = Some author"
    and "\<exists>seg \<in> set (re_split_and author). py_strip seg = []"
  shows "correct_capitalization entry = Inl IndexError"
proof -
  have a: "standardize_authors author = Inl IndexError"
    using standardize_loop_error [OF assms(2)] by (simp add: standardize_authors_def)
  have "map_of (setitem entry ''title'' t) ''author'' = Some author" for t
    using assms(1) by (simp add: map_of_setitem)
  with assms(1) a show ?thesis
    by (simp add: correct_capitalization_def Let_def split: option.splits)
qed

lemma correct_capitalization_empty_author:
  "correct_capitalization [(''ID'', ''k''), (''ENTRYTYPE'', ''misc''), (''author'', '''')] =
     Inl IndexError"
  by code_simp

lemma correct_capitalization_main_total: "\<exists>e. correct_capitalization_main entry = Inr e"
  using title_case_main_rule by (simp add: correct_capitalization_main_def split: option.splits)

text \<open>
  The partitioner and the validator read \<^verbatim>\<open>entry['ID']\<close> and \<^verbatim>\<open>entry['ENTRYTYPE']\<close>
  without a default: on an entry without them, which the parser never produces, they
  raise \<^verbatim>\<open>KeyError\<close>.
\<close>

lemma separate_entries_no_key:
  "separate_entries [[(''title'', ''T'')]] ks = Inl KeyError"
  by (simp add: separate_entries_def getitem_def)

lemma check_required_fields_no_type:
  "check_required_fields [(''ID'', ''k'')] [''title''] [] = Inl KeyError"
  by (simp add: check_required_fields_def append_report_def getitem_def setitem_def
      has_field_def)

end
